theory Spec2Isabelle
  imports Main "HOL-Library.Multiset"
begin

text \<open>
  The embedding follows the Go file of the sort operator (package \<open>functions\<close>):
  \<open>createSortOpSpec\<close>, \<open>newSortProcedure\<close>, \<open>SortProcedureSpec.Copy\<close>,
  and the methods of \<open>sortTransformation\<close>. The packages \<open>query\<close>, \<open>execute\<close>,
  \<open>interpreter\<close> and \<open>values\<close> it calls are collaborators that the file only
  consumes; the parts of them the operator needs are modelled from the specification and
  marked as such.
\<close>

section \<open>Columns, values and partition keys\<close>

text \<open>
  Modelled from the spec: column metadata (label, semantic type), values, and the
  partition key, "an ordered set of (column-metadata, value) pairs". \<open>Cols\<close>,
  \<open>Value\<close> and \<open>HasCol\<close> are the methods of \<open>query.PartitionKey\<close> the operator
  calls; \<open>NewPartitionKey\<close> pairs a column array with a value array. \<open>VNil\<close> is the
  nil interface value and \<open>zeroColMeta\<close> the zero struct that \<open>make\<close> fills a fresh
  array with. Floating-point values are outside the model.
\<close>

datatype DataType = TInvalid | TBool | TInt | TUInt | TFloat | TString | TTime

record ColMeta =
  Label :: string
  Type :: DataType

datatype Value =
    VNil
  | VBool bool
  | VInt int
  | VUInt nat
  | VString string
  | VTime int

type_synonym PartitionKey = "(ColMeta \<times> Value) list"

definition zeroColMeta :: ColMeta where
  "zeroColMeta = \<lparr>Label = [], Type = TInvalid\<rparr>"

definition Cols_key :: "PartitionKey \<Rightarrow> ColMeta list" where
  "Cols_key key = map fst key"

definition Value_key :: "PartitionKey \<Rightarrow> nat \<Rightarrow> Value" where
  "Value_key key idx = snd (key ! idx)"

definition NewPartitionKey :: "ColMeta list \<Rightarrow> Value list \<Rightarrow> PartitionKey" where
  "NewPartitionKey cs vs = zip cs vs"

text \<open>
  The errors of the operator: \<open>fmt.Errorf("invalid spec type %T", qs)\<close>,
  \<open>fmt.Errorf("sort found duplicate block with key: %v", b.Key())\<close>, and the errors
  that the argument getters and the parent resolution hand back.
\<close>

datatype error =
    InvalidSpecType string
  | DuplicateBlock PartitionKey
  | ArgumentError string
  | ParentError string

section \<open>The sort operator: specifications\<close>

text \<open>
  \<open>SortOpSpec\<close> and \<open>SortProcedureSpec\<close> both hold \<open>Cols []string\<close> and
  \<open>Desc bool\<close>. The column list is a Go slice; its representation is the type
  parameter \<open>'c\<close>: \<open>string list\<close> where only the contents matter, a slice header
  into an explicit store where aliasing matters (\<open>Copy\<close>).
\<close>

record 'c SortOpSpec =
  Cols :: 'c
  Desc :: bool

record 'c SortProcedureSpec =
  Cols :: 'c
  Desc :: bool

subsection \<open>Arguments\<close>

text \<open>
  Modelled from the spec: \<open>query.Arguments\<close> (a set of named, typed arguments),
  its getters \<open>GetArray\<close> and \<open>GetBool\<close>, and \<open>interpreter.ToStringArray\<close>.
  A getter returns the value, whether the argument is present, and an error on a type
  mismatch.
\<close>

datatype Kind = KString | KInt | KBool | KArray

datatype ArgValue =
    StringArg string
  | IntArg int
  | BoolArg bool
  | ArrayArg Kind "ArgValue list"

type_synonym Arguments = "string \<rightharpoonup> ArgValue"

definition GetArray :: "Arguments \<Rightarrow> string \<Rightarrow> Kind \<Rightarrow> error + (ArgValue list \<times> bool)" where
  "GetArray args name t =
     (case args name of
        None \<Rightarrow> Inr ([], False)
      | Some (ArrayArg t' xs) \<Rightarrow>
          if t' = t then Inr (xs, True) else Inl (ArgumentError name)
      | Some _ \<Rightarrow> Inl (ArgumentError name))"

definition GetBool :: "Arguments \<Rightarrow> string \<Rightarrow> error + (bool \<times> bool)" where
  "GetBool args name =
     (case args name of
        None \<Rightarrow> Inr (False, False)
      | Some (BoolArg b) \<Rightarrow> Inr (b, True)
      | Some _ \<Rightarrow> Inl (ArgumentError name))"

fun ToStringArray :: "ArgValue list \<Rightarrow> error + string list" where
  "ToStringArray [] = Inr []"
| "ToStringArray (StringArg s # xs) =
     (case ToStringArray xs of Inl e \<Rightarrow> Inl e | Inr ss \<Rightarrow> Inr (s # ss))"
| "ToStringArray (_ # xs) = Inl (ArgumentError ''cols'')"

text \<open>
  Modelled from the spec: \<open>execute.DefaultValueColLabel\<close>, the single well-known
  "value" column label.
\<close>

definition DefaultValueColLabel :: string where
  "DefaultValueColLabel = ''_value''"

subsection \<open>createSortOpSpec\<close>

text \<open>
  \<open>a.AddParentFromArgs(args)\<close> belongs to \<open>query.Administration\<close>; it is the
  parameter \<open>AddParentFromArgs\<close>, which returns the updated administration or an error.
  \<open>new(SortOpSpec)\<close> starts with \<open>Desc = false\<close>.
\<close>

definition createSortOpSpec ::
  "(Arguments \<Rightarrow> 'a \<Rightarrow> error + 'a) \<Rightarrow> Arguments \<Rightarrow> 'a \<Rightarrow> error + (string list SortOpSpec \<times> 'a)"
where
  "createSortOpSpec AddParentFromArgs args a =
     (case AddParentFromArgs args a of
        Inl err \<Rightarrow> Inl err
      | Inr a' \<Rightarrow>
          (case GetArray args ''cols'' KString of
             Inl err \<Rightarrow> Inl err
           | Inr (array, ok) \<Rightarrow>
               (case (if ok then ToStringArray array else Inr [DefaultValueColLabel]) of
                  Inl err \<Rightarrow> Inl err
                | Inr cs \<Rightarrow>
                    (case GetBool args ''desc'' of
                       Inl err \<Rightarrow> Inl err
                     | Inr (desc, ok) \<Rightarrow>
                         Inr (\<lparr>SortOpSpec.Cols = cs,
                               SortOpSpec.Desc = (if ok then desc else False)\<rparr>, a')))))"

subsection \<open>newSortProcedure\<close>

text \<open>
  \<open>query.OperationSpec\<close> is an interface; the type assertion \<open>qs.(*SortOpSpec)\<close>
  asks whether the value is of the sort operation's concrete kind. The other kinds are
  identified by their kind name. Operation specifications are allocated with \<open>new\<close>
  (\<open>newSortOp\<close>, \<open>createSortOpSpec\<close>), so the pointer under the interface is not nil.
\<close>

datatype 'c OperationSpec =
    SortOp "'c SortOpSpec"
  | OtherOp string

definition newSortProcedure :: "'c OperationSpec \<Rightarrow> error + 'c SortProcedureSpec" where
  "newSortProcedure qs =
     (case qs of
        SortOp spec \<Rightarrow>
          Inr \<lparr>SortProcedureSpec.Cols = SortOpSpec.Cols spec,
               SortProcedureSpec.Desc = SortOpSpec.Desc spec\<rparr>
      | OtherOp k \<Rightarrow> Inl (InvalidSpecType k))"

subsection \<open>SortProcedureSpec.Copy\<close>

text \<open>
  \<open>Copy\<close> is about who owns the storage of the column list, so here the column list
  is a slice header into an explicit store of arrays. An address is an index into the
  store; \<open>make\<close> allocates a fresh array at the end of the store. A slice is nil, or
  an array address with an offset and a length. Writing through a slice beyond its
  length panics (\<open>None\<close>).
\<close>

type_synonym store = "string list list"

datatype StrSlice = NilSlice | Slice nat nat nat

definition slice_len :: "StrSlice \<Rightarrow> nat" where
  "slice_len s = (case s of NilSlice \<Rightarrow> 0 | Slice a off n \<Rightarrow> n)"

definition slice_valid :: "store \<Rightarrow> StrSlice \<Rightarrow> bool" where
  "slice_valid h s =
     (case s of NilSlice \<Rightarrow> True | Slice a off n \<Rightarrow> a < length h \<and> off + n \<le> length (h ! a))"

definition slice_read :: "store \<Rightarrow> StrSlice \<Rightarrow> string list" where
  "slice_read h s =
     (case s of NilSlice \<Rightarrow> [] | Slice a off n \<Rightarrow> take n (drop off (h ! a)))"

definition slice_write :: "store \<Rightarrow> StrSlice \<Rightarrow> nat \<Rightarrow> string \<Rightarrow> store option" where
  "slice_write h s i v =
     (case s of
        NilSlice \<Rightarrow> None
      | Slice a off n \<Rightarrow> if i < n then Some (h[a := (h ! a)[off + i := v]]) else None)"

definition make_slice :: "store \<Rightarrow> nat \<Rightarrow> store \<times> StrSlice" where
  "make_slice h n = (h @ [replicate n []], Slice (length h) 0 n)"

definition copy_slice :: "store \<Rightarrow> StrSlice \<Rightarrow> StrSlice \<Rightarrow> store" where
  "copy_slice h dst src =
     (let k = min (slice_len dst) (slice_len src);
          xs = take k (slice_read h src)
      in case dst of
           NilSlice \<Rightarrow> h
         | Slice a off n \<Rightarrow> h[a := take off (h ! a) @ xs @ drop (off + k) (h ! a)])"

definition Copy :: "store \<Rightarrow> StrSlice SortProcedureSpec \<Rightarrow> store \<times> StrSlice SortProcedureSpec" where
  "Copy h s =
     (case make_slice h (slice_len (SortProcedureSpec.Cols s)) of
        (h1, nsCols) \<Rightarrow>
          (copy_slice h1 nsCols (SortProcedureSpec.Cols s),
           \<lparr>SortProcedureSpec.Cols = nsCols, SortProcedureSpec.Desc = SortProcedureSpec.Desc s\<rparr>))"

section \<open>Key reordering\<close>

text \<open>
  Modelled from the spec: the helpers find-column-index and contains-label.
  \<open>ColIdx\<close> returns the index of the first column with the label, and \<open>-1\<close> when
  there is none (the operator tests \<open>idx >= 0\<close>).
\<close>

fun ColIdx_loop :: "string \<Rightarrow> ColMeta list \<Rightarrow> nat \<Rightarrow> int" where
  "ColIdx_loop label [] j = - 1"
| "ColIdx_loop label (c # cs) j =
     (if Label c = label then int j else ColIdx_loop label cs (Suc j))"

definition ColIdx :: "string \<Rightarrow> ColMeta list \<Rightarrow> int" where
  "ColIdx label cs = ColIdx_loop label cs 0"

fun ContainsStr :: "string list \<Rightarrow> string \<Rightarrow> bool" where
  "ContainsStr [] str = False"
| "ContainsStr (s # strs) str = (if s = str then True else ContainsStr strs str)"

definition HasCol :: "PartitionKey \<Rightarrow> string \<Rightarrow> bool" where
  "HasCol key label = (0 \<le> ColIdx label (Cols_key key))"

subsection \<open>sortedKey\<close>

text \<open>
  \<open>sortedKey\<close> fills two arrays of length \<open>len(key.Cols())\<close> through the running
  index \<open>j\<close>. A Go array write outside the array panics: \<open>write_slot\<close> checks the
  index, and \<open>None\<close> is the panic. The state of the two loops is the pair of arrays
  and \<open>j\<close>.
\<close>

type_synonym key_arrays = "ColMeta list \<times> Value list \<times> nat"

definition write_slot :: "ColMeta \<Rightarrow> Value \<Rightarrow> key_arrays \<Rightarrow> key_arrays option" where
  "write_slot c v st =
     (case st of (cs, vs, j) \<Rightarrow>
        if j < length cs \<and> j < length vs then Some (cs[j := c], vs[j := v], Suc j)
        else None)"

text \<open>The first loop, \<open>for _, label := range t.cols\<close>.\<close>

fun sortedKey_labels :: "string list \<Rightarrow> PartitionKey \<Rightarrow> key_arrays \<Rightarrow> key_arrays option" where
  "sortedKey_labels [] key st = Some st"
| "sortedKey_labels (label # rest) key st =
     (let idx = ColIdx label (Cols_key key) in
      if 0 \<le> idx then
        (case write_slot (Cols_key key ! nat idx) (Value_key key (nat idx)) st of
           None \<Rightarrow> None
         | Some st' \<Rightarrow> sortedKey_labels rest key st')
      else sortedKey_labels rest key st)"

text \<open>The second loop, \<open>for idx, c := range key.Cols()\<close>, over the indices.\<close>

fun sortedKey_rest ::
  "string list \<Rightarrow> PartitionKey \<Rightarrow> nat list \<Rightarrow> key_arrays \<Rightarrow> key_arrays option" where
  "sortedKey_rest tcols key [] st = Some st"
| "sortedKey_rest tcols key (idx # idxs) st =
     (let c = Cols_key key ! idx in
      if \<not> ContainsStr tcols (Label c) then
        (case write_slot c (Value_key key idx) st of
           None \<Rightarrow> None
         | Some st' \<Rightarrow> sortedKey_rest tcols key idxs st')
      else sortedKey_rest tcols key idxs st)"

definition sortedKey_arrays :: "string list \<Rightarrow> PartitionKey \<Rightarrow> key_arrays option" where
  "sortedKey_arrays tcols key =
     (let n = length (Cols_key key);
          cs = replicate n zeroColMeta;
          vs = replicate n VNil
      in case sortedKey_labels tcols key (cs, vs, 0) of
           None \<Rightarrow> None
         | Some st \<Rightarrow> sortedKey_rest tcols key [0..<n] st)"

definition sortedKey :: "string list \<Rightarrow> PartitionKey \<Rightarrow> PartitionKey option" where
  "sortedKey tcols key =
     (case sortedKey_arrays tcols key of
        None \<Rightarrow> None
      | Some (cs, vs, j) \<Rightarrow> Some (NewPartitionKey cs vs))"

text \<open>
  The key that \<open>Process\<close> hands to the cache: the loop over \<open>t.cols\<close> that calls
  \<open>sortedKey\<close> at the first label that is a key column, and breaks.
\<close>

fun Process_key :: "string list \<Rightarrow> string list \<Rightarrow> PartitionKey \<Rightarrow> PartitionKey option" where
  "Process_key tcols [] key = Some key"
| "Process_key tcols (label # rest) key =
     (if HasCol key label then sortedKey tcols key else Process_key tcols rest key)"

text \<open>
  A partition key is an ordered set of columns: its column labels are pairwise distinct.
\<close>

definition wf_key :: "PartitionKey \<Rightarrow> bool" where
  "wf_key key = distinct (map Label (Cols_key key))"

text \<open>
  The two parts of the reordered key: the entry that the first loop writes for a label
  that is a key column, the front part over the configured labels, and the back part of
  the key columns whose label is not configured.
\<close>

definition key_entry :: "PartitionKey \<Rightarrow> string \<Rightarrow> ColMeta \<times> Value" where
  "key_entry key label = key ! nat (ColIdx label (Cols_key key))"

definition key_front :: "string list \<Rightarrow> PartitionKey \<Rightarrow> PartitionKey" where
  "key_front tcols key = map (key_entry key) (filter (HasCol key) tcols)"

definition key_back :: "string list \<Rightarrow> PartitionKey \<Rightarrow> PartitionKey" where
  "key_back tcols key = filter (\<lambda>p. Label (fst p) \<notin> set tcols) key"

section \<open>Blocks, builders and the builder cache\<close>

text \<open>
  Modelled from the spec: a block (its partition key, its ordered column metadata and
  its data, held here as the list of its rows), the block builder with the bulk helpers
  add-all-columns-from-block-to-builder and append-all-rows-using-column-map, and the
  block-builder cache, \<open>BuilderFor(key) \<rightarrow> (builder, created)\<close>, where
  \<open>created = false\<close> signals an existing builder for that key. The builder that the
  cache returns is a reference: what \<open>Process\<close> does to it is stored back under its
  key. A column-map entry that points outside the builder's columns, or a column map that
  is shorter than a row, is an out-of-range access (\<open>None\<close>).
\<close>

record Block =
  Key :: PartitionKey
  Cols_blk :: "ColMeta list"
  Rows_blk :: "Value list list"

record BlockBuilder =
  Key_bb :: PartitionKey
  Cols_bb :: "ColMeta list"
  Rows_bb :: "Value list list"

type_synonym BlockBuilderCache = "PartitionKey \<rightharpoonup> BlockBuilder"

definition NewBlockBuilder :: "PartitionKey \<Rightarrow> BlockBuilder" where
  "NewBlockBuilder key = \<lparr>Key_bb = key, Cols_bb = [], Rows_bb = []\<rparr>"

definition BlockBuilder_cache ::
  "BlockBuilderCache \<Rightarrow> PartitionKey \<Rightarrow> BlockBuilder \<times> bool \<times> BlockBuilderCache" where
  "BlockBuilder_cache c key =
     (case c key of
        Some builder \<Rightarrow> (builder, False, c)
      | None \<Rightarrow> (NewBlockBuilder key, True, c(key \<mapsto> NewBlockBuilder key)))"

definition AddBlockCols :: "Block \<Rightarrow> BlockBuilder \<Rightarrow> BlockBuilder" where
  "AddBlockCols b builder = builder\<lparr>Cols_bb := Cols_bb builder @ Cols_blk b\<rparr>"

definition NCols :: "BlockBuilder \<Rightarrow> nat" where
  "NCols builder = length (Cols_bb builder)"

fun AppendRow :: "int list \<Rightarrow> nat \<Rightarrow> Value list \<Rightarrow> Value list \<Rightarrow> Value list option" where
  "AppendRow cm j [] dst = Some dst"
| "AppendRow cm j (v # vs) dst =
     (if j < length cm \<and> 0 \<le> cm ! j \<and> nat (cm ! j) < length dst
      then AppendRow cm (Suc j) vs (dst[nat (cm ! j) := v])
      else None)"

fun AppendRows :: "int list \<Rightarrow> nat \<Rightarrow> Value list list \<Rightarrow> Value list list option" where
  "AppendRows cm n [] = Some []"
| "AppendRows cm n (r # rs) =
     (case AppendRow cm 0 r (replicate n VNil) of
        None \<Rightarrow> None
      | Some r' \<Rightarrow> (case AppendRows cm n rs of None \<Rightarrow> None | Some rs' \<Rightarrow> Some (r' # rs')))"

definition AppendBlock :: "Block \<Rightarrow> BlockBuilder \<Rightarrow> int list \<Rightarrow> BlockBuilder option" where
  "AppendBlock b builder cm =
     (case AppendRows cm (NCols builder) (Rows_blk b) of
        None \<Rightarrow> None
      | Some rs \<Rightarrow> Some (builder\<lparr>Rows_bb := Rows_bb builder @ rs\<rparr>))"

subsection \<open>Sorting a builder\<close>

text \<open>
  Modelled from the spec: \<open>builder.Sort(cols, desc)\<close>. "Multi-key, with all configured
  columns compared in the order given, each using direction \<open>desc\<close> uniformly;
  comparison is by each column's natural value ordering (numeric, lexicographic for
  strings, chronological for time); equal-key rows retain their original relative
  order." A configured label that is not a column of the builder takes no part in the
  comparison. The sort is an insertion sort that puts a row in front of the first row
  that is not before it.
\<close>

fun string_less :: "string \<Rightarrow> string \<Rightarrow> bool" where
  "string_less [] [] = False"
| "string_less [] (b # bs) = True"
| "string_less (a # as) [] = False"
| "string_less (a # as) (b # bs) =
     (if (of_char a :: nat) < of_char b then True
      else if a = b then string_less as bs
      else False)"

fun value_less :: "Value \<Rightarrow> Value \<Rightarrow> bool" where
  "value_less (VBool a) (VBool b) = (\<not> a \<and> b)"
| "value_less (VInt a) (VInt b) = (a < b)"
| "value_less (VUInt a) (VUInt b) = (a < b)"
| "value_less (VString a) (VString b) = string_less a b"
| "value_less (VTime a) (VTime b) = (a < b)"
| "value_less _ _ = False"

fun sort_idxs :: "string list \<Rightarrow> ColMeta list \<Rightarrow> nat list" where
  "sort_idxs [] cs = []"
| "sort_idxs (label # labels) cs =
     (if 0 \<le> ColIdx label cs then nat (ColIdx label cs) # sort_idxs labels cs
      else sort_idxs labels cs)"

definition row_key :: "nat list \<Rightarrow> Value list \<Rightarrow> Value list" where
  "row_key idxs r = map (\<lambda>i. r ! i) idxs"

fun key_less :: "bool \<Rightarrow> Value list \<Rightarrow> Value list \<Rightarrow> bool" where
  "key_less dsc (a # as) (b # bs) =
     (if a = b then key_less dsc as bs
      else if dsc then value_less b a else value_less a b)"
| "key_less dsc _ _ = False"

fun insert_row :: "nat list \<Rightarrow> bool \<Rightarrow> Value list \<Rightarrow> Value list list \<Rightarrow> Value list list" where
  "insert_row idxs dsc r [] = [r]"
| "insert_row idxs dsc r (x # xs) =
     (if key_less dsc (row_key idxs x) (row_key idxs r) then x # insert_row idxs dsc r xs
      else r # x # xs)"

fun sort_rows :: "nat list \<Rightarrow> bool \<Rightarrow> Value list list \<Rightarrow> Value list list" where
  "sort_rows idxs dsc [] = []"
| "sort_rows idxs dsc (r # rs) = insert_row idxs dsc r (sort_rows idxs dsc rs)"

definition Sort_bb :: "BlockBuilder \<Rightarrow> string list \<Rightarrow> bool \<Rightarrow> BlockBuilder" where
  "Sort_bb builder labels dsc =
     builder\<lparr>Rows_bb := sort_rows (sort_idxs labels (Cols_bb builder)) dsc (Rows_bb builder)\<rparr>"

section \<open>The transformation node\<close>

text \<open>
  Modelled from the spec: the Dataset, \<open>RetractBlock(key)\<close>, \<open>UpdateWatermark(time)\<close>,
  \<open>UpdateProcessingTime(time)\<close>, \<open>Finish(error)\<close>, an interface that the node only
  calls. Its state is the type parameter \<open>'d\<close> and its four methods are a record of
  functions. \<open>recording\<close> is the dataset that does nothing but log the calls it gets.
\<close>

record 'd Dataset =
  RetractBlock_d :: "PartitionKey \<Rightarrow> 'd \<Rightarrow> error option \<times> 'd"
  UpdateWatermark_d :: "int \<Rightarrow> 'd \<Rightarrow> error option \<times> 'd"
  UpdateProcessingTime_d :: "int \<Rightarrow> 'd \<Rightarrow> error option \<times> 'd"
  Finish_d :: "error option \<Rightarrow> 'd \<Rightarrow> 'd"

datatype DatasetCall =
    CallRetractBlock PartitionKey
  | CallUpdateWatermark int
  | CallUpdateProcessingTime int
  | CallFinish "error option"

definition recording :: "(DatasetCall \<Rightarrow> error option) \<Rightarrow> DatasetCall list Dataset" where
  "recording res =
     \<lparr>RetractBlock_d = (\<lambda>key log. (res (CallRetractBlock key), log @ [CallRetractBlock key])),
      UpdateWatermark_d = (\<lambda>mark log. (res (CallUpdateWatermark mark), log @ [CallUpdateWatermark mark])),
      UpdateProcessingTime_d =
        (\<lambda>pt log. (res (CallUpdateProcessingTime pt), log @ [CallUpdateProcessingTime pt])),
      Finish_d = (\<lambda>err log. log @ [CallFinish err])\<rparr>"

text \<open>
  The scratch buffer \<open>colMap []int\<close> is owned by the node alone: it is its backing
  array from the start of the slice (whose length is the capacity) and its length.
  The nil slice has an empty backing array.
\<close>

record IntSlice =
  arr :: "int list"
  len :: nat

definition cap :: "IntSlice \<Rightarrow> nat" where
  "cap s = length (arr s)"

definition view :: "IntSlice \<Rightarrow> int list" where
  "view s = take (len s) (arr s)"

definition nilIntSlice :: IntSlice where
  "nilIntSlice = \<lparr>arr = [], len = 0\<rparr>"

record 'd sortTransformation =
  d :: 'd
  cache :: BlockBuilderCache
  cols :: "string list"
  desc :: bool
  colMap :: IntSlice

definition NewSortTransformation ::
  "'d \<Rightarrow> BlockBuilderCache \<Rightarrow> string list SortProcedureSpec \<Rightarrow> 'd sortTransformation" where
  "NewSortTransformation ds c spec =
     \<lparr>d = ds, cache = c, cols = SortProcedureSpec.Cols spec,
      desc = SortProcedureSpec.Desc spec, colMap = nilIntSlice\<rparr>"

subsection \<open>Lifecycle methods\<close>

definition RetractBlock ::
  "'d Dataset \<Rightarrow> 'd sortTransformation \<Rightarrow> nat \<Rightarrow> PartitionKey \<Rightarrow> error option \<times> 'd sortTransformation"
where
  "RetractBlock ds t did key =
     (case RetractBlock_d ds key (d t) of (err, d') \<Rightarrow> (err, t\<lparr>d := d'\<rparr>))"

definition UpdateWatermark ::
  "'d Dataset \<Rightarrow> 'd sortTransformation \<Rightarrow> nat \<Rightarrow> int \<Rightarrow> error option \<times> 'd sortTransformation"
where
  "UpdateWatermark ds t did mark =
     (case UpdateWatermark_d ds mark (d t) of (err, d') \<Rightarrow> (err, t\<lparr>d := d'\<rparr>))"

definition UpdateProcessingTime ::
  "'d Dataset \<Rightarrow> 'd sortTransformation \<Rightarrow> nat \<Rightarrow> int \<Rightarrow> error option \<times> 'd sortTransformation"
where
  "UpdateProcessingTime ds t did pt =
     (case UpdateProcessingTime_d ds pt (d t) of (err, d') \<Rightarrow> (err, t\<lparr>d := d'\<rparr>))"

definition Finish ::
  "'d Dataset \<Rightarrow> 'd sortTransformation \<Rightarrow> nat \<Rightarrow> error option \<Rightarrow> 'd sortTransformation"
where
  "Finish ds t did err = t\<lparr>d := Finish_d ds err (d t)\<rparr>"

subsection \<open>Process\<close>

text \<open>
  The resizing of the column map: when the capacity is too small, a new array of length
  \<open>ncols\<close> is made and filled by the loop \<open>t.colMap[j] = j\<close>; otherwise the slice is
  re-sliced to \<open>t.colMap[:ncols]\<close> over the same backing array.
\<close>

fun fill_identity :: "nat list \<Rightarrow> int list \<Rightarrow> int list" where
  "fill_identity [] a = a"
| "fill_identity (j # js) a = fill_identity js (a[j := int j])"

definition Process_colMap :: "IntSlice \<Rightarrow> nat \<Rightarrow> IntSlice" where
  "Process_colMap cm ncols =
     (if cap cm < ncols
      then \<lparr>arr = fill_identity [0..<ncols] (replicate ncols 0), len = ncols\<rparr>
      else cm\<lparr>len := ncols\<rparr>)"

text \<open>
  The invariant of the scratch buffer: over its whole capacity, the backing array is the
  identity mapping.
\<close>

definition colMap_inv :: "IntSlice \<Rightarrow> bool" where
  "colMap_inv cm = (arr cm = map int [0..<cap cm])"

text \<open>
  \<open>Process\<close> returns the error (or none) with the node after the call; \<open>None\<close> is a
  panic of \<open>sortedKey\<close> or of the row copy. \<open>Process_body\<close> is the part of
  \<open>Process\<close> from \<open>t.cache.BlockBuilder(key)\<close> on, with the key that the loop over
  \<open>t.cols\<close> has left in \<open>key\<close>.
\<close>

definition Process_body ::
  "'d sortTransformation \<Rightarrow> Block \<Rightarrow> PartitionKey \<Rightarrow> (error option \<times> 'd sortTransformation) option"
where
  "Process_body t b key =
     (case BlockBuilder_cache (cache t) key of
        (builder, created, cache1) \<Rightarrow>
          if \<not> created then Some (Some (DuplicateBlock (Key b)), t\<lparr>cache := cache1\<rparr>)
          else
            (let builder1 = AddBlockCols b builder;
                 ncols = NCols builder1;
                 colMap1 = Process_colMap (colMap t) ncols
             in case AppendBlock b builder1 (view colMap1) of
                  None \<Rightarrow> None
                | Some builder2 \<Rightarrow>
                    Some (None,
                          t\<lparr>cache := cache1(key \<mapsto> Sort_bb builder2 (cols t) (desc t)),
                            colMap := colMap1\<rparr>)))"

definition Process ::
  "'d sortTransformation \<Rightarrow> nat \<Rightarrow> Block \<Rightarrow> (error option \<times> 'd sortTransformation) option"
where
  "Process t did b =
     (case Process_key (cols t) (cols t) (Key b) of
        None \<Rightarrow> None
      | Some key \<Rightarrow> Process_body t b key)"

text \<open>A stream of blocks delivered to the node, one call after the other.\<close>

fun Process_seq :: "'d sortTransformation \<Rightarrow> nat \<Rightarrow> Block list \<Rightarrow> 'd sortTransformation option" where
  "Process_seq t did [] = Some t"
| "Process_seq t did (b # bs) =
     (case Process t did b of
        None \<Rightarrow> None
      | Some (err, t') \<Rightarrow> Process_seq t' did bs)"

section \<open>Properties of the specifications\<close>

text \<open>
  C4. When both the \<open>cols\<close> and the \<open>desc\<close> argument are absent and the parent
  resolves, \<open>createSortOpSpec\<close> succeeds with the column list holding exactly the default
  value-column label, ascending.
\<close>

theorem createSortOpSpec_defaults:
  assumes "args ''cols'' = None" and "args ''desc'' = None"
    and "AddParentFromArgs args a = Inr a'"
  shows "createSortOpSpec AddParentFromArgs args a =
           Inr (\<lparr>SortOpSpec.Cols = [DefaultValueColLabel], SortOpSpec.Desc = False\<rparr>, a')"
  using assms by (simp add: createSortOpSpec_def GetArray_def GetBool_def)

theorem createSortOpSpec_defaults_witness:
  "createSortOpSpec (\<lambda>args a. Inr (Suc a)) (Map.empty(''table'' \<mapsto> StringArg ''t'')) (0::nat) =
     Inr (\<lparr>SortOpSpec.Cols = [''_value''], SortOpSpec.Desc = False\<rparr>, Suc 0)"
  using createSortOpSpec_defaults
    [of "Map.empty(''table'' \<mapsto> StringArg ''t'')" "\<lambda>args a. Inr (Suc a)" "0::nat" "Suc 0"]
  by (simp add: DefaultValueColLabel_def)

text \<open>
  C8. \<open>newSortProcedure\<close> fails with the invalid-spec-type error exactly when its argument
  is not a sort operation specification; on a sort operation specification it succeeds
  and the procedure specification has the same column list and direction.
\<close>

theorem newSortProcedure_kind:
  "((\<exists>k. newSortProcedure qs = Inl (InvalidSpecType k)) = (\<nexists>spec. qs = SortOp spec)) \<and>
   ((\<exists>e. newSortProcedure qs = Inl e) = (\<nexists>spec. qs = SortOp spec)) \<and>
   (\<forall>spec. newSortProcedure (SortOp spec) =
      Inr \<lparr>SortProcedureSpec.Cols = SortOpSpec.Cols spec,
           SortProcedureSpec.Desc = SortOpSpec.Desc spec\<rparr>)"
  by (cases qs) (simp_all add: newSortProcedure_def)

section \<open>Properties of the key reordering\<close>

lemma ColIdx_loop_absent:
  "label \<notin> Label ` set cs \<Longrightarrow> ColIdx_loop label cs j = - 1"
  by (induction cs arbitrary: j) auto

lemma ColIdx_loop_present:
  "label \<in> Label ` set cs \<Longrightarrow>
   \<exists>i<length cs. ColIdx_loop label cs j = int (j + i) \<and> Label (cs ! i) = label"
proof (induction cs arbitrary: j)
  case Nil
  then show ?case by simp
next
  case (Cons c cs)
  show ?case
  proof (cases "Label c = label")
    case True
    then show ?thesis by (intro exI[of _ 0]) simp
  next
    case False
    with Cons.prems have "label \<in> Label ` set cs" by auto
    from Cons.IH[OF this, of "Suc j"] obtain i where
      "i < length cs" "ColIdx_loop label cs (Suc j) = int (Suc j + i)" "Label (cs ! i) = label"
      by blast
    with False show ?thesis by (intro exI[of _ "Suc i"]) simp
  qed
qed

lemma HasCol_iff: "HasCol key label = (label \<in> Label ` fst ` set key)"
proof (cases "label \<in> Label ` set (Cols_key key)")
  case True
  from ColIdx_loop_present[OF this, of 0] show ?thesis
    using True by (auto simp: HasCol_def ColIdx_def Cols_key_def)
next
  case False
  from ColIdx_loop_absent[OF this, of 0] show ?thesis
    using False by (auto simp: HasCol_def ColIdx_def Cols_key_def)
qed

lemma ColIdx_HasCol:
  assumes "HasCol key label"
  shows "\<exists>i<length key. ColIdx label (Cols_key key) = int i \<and> Label (fst (key ! i)) = label"
proof -
  from assms have "label \<in> Label ` set (Cols_key key)"
    by (simp add: HasCol_iff Cols_key_def image_image)
  from ColIdx_loop_present[OF this, of 0] show ?thesis
    by (auto simp: ColIdx_def Cols_key_def)
qed

lemma ContainsStr_iff: "ContainsStr strs str = (str \<in> set strs)"
  by (induction strs) auto

lemma key_entry_in:
  "HasCol key label \<Longrightarrow> key_entry key label \<in> set key \<and> Label (fst (key_entry key label)) = label"
  using ColIdx_HasCol[of key label] by (auto simp: key_entry_def)

lemma take_Suc_update:
  "j < length xs \<Longrightarrow> take (Suc j) (xs[j := x]) = take j xs @ [x]"
  by (simp add: take_Suc_conv_app_nth)

lemma sortedKey_labels_run:
  assumes "length vs = length cs"
    and "j + length (filter (HasCol key) labels) \<le> length cs"
  shows "sortedKey_labels labels key (cs, vs, j) =
           Some (take j cs @ map (fst \<circ> key_entry key) (filter (HasCol key) labels)
                   @ drop (j + length (filter (HasCol key) labels)) cs,
                 take j vs @ map (snd \<circ> key_entry key) (filter (HasCol key) labels)
                   @ drop (j + length (filter (HasCol key) labels)) vs,
                 j + length (filter (HasCol key) labels))"
  using assms
proof (induction labels arbitrary: cs vs j)
  case Nil
  then show ?case by simp
next
  case (Cons l ls)
  show ?case
  proof (cases "HasCol key l")
    case False
    with Cons.IH[of vs cs j] Cons.prems show ?thesis
      by (simp add: HasCol_def)
  next
    case True
    with Cons.prems have j: "j < length cs" by simp
    from ColIdx_HasCol[OF True] obtain i where i: "i < length key"
      "ColIdx l (Cols_key key) = int i" by blast
    have e: "Cols_key key ! i = fst (key_entry key l)" "Value_key key i = snd (key_entry key l)"
      using i by (simp_all add: key_entry_def Cols_key_def Value_key_def)
    have "sortedKey_labels (l # ls) key (cs, vs, j) =
            sortedKey_labels ls key (cs[j := fst (key_entry key l)], vs[j := snd (key_entry key l)], Suc j)"
      using True i e j Cons.prems(1) by (simp add: HasCol_def write_slot_def)
    also have "\<dots> = Some (take j cs @ map (fst \<circ> key_entry key) (filter (HasCol key) (l # ls))
                   @ drop (j + length (filter (HasCol key) (l # ls))) cs,
                 take j vs @ map (snd \<circ> key_entry key) (filter (HasCol key) (l # ls))
                   @ drop (j + length (filter (HasCol key) (l # ls))) vs,
                 j + length (filter (HasCol key) (l # ls)))"
      using Cons.IH[of "vs[j := snd (key_entry key l)]" "cs[j := fst (key_entry key l)]" "Suc j"]
        Cons.prems True j
      by (simp add: take_Suc_update)
    finally show ?thesis .
  qed
qed

lemma sortedKey_rest_run:
  assumes "length vs = length cs"
    and "\<forall>i\<in>set idxs. i < length key"
    and "j + length (filter (\<lambda>i. Label (fst (key ! i)) \<notin> set tcols) idxs) \<le> length cs"
  shows "sortedKey_rest tcols key idxs (cs, vs, j) =
           Some (take j cs
                   @ map (\<lambda>i. fst (key ! i)) (filter (\<lambda>i. Label (fst (key ! i)) \<notin> set tcols) idxs)
                   @ drop (j + length (filter (\<lambda>i. Label (fst (key ! i)) \<notin> set tcols) idxs)) cs,
                 take j vs
                   @ map (\<lambda>i. snd (key ! i)) (filter (\<lambda>i. Label (fst (key ! i)) \<notin> set tcols) idxs)
                   @ drop (j + length (filter (\<lambda>i. Label (fst (key ! i)) \<notin> set tcols) idxs)) vs,
                 j + length (filter (\<lambda>i. Label (fst (key ! i)) \<notin> set tcols) idxs))"
  using assms
proof (induction idxs arbitrary: cs vs j)
  case Nil
  then show ?case by simp
next
  case (Cons i ids)
  from Cons.prems(2) have i: "i < length key" by simp
  then have c: "Cols_key key ! i = fst (key ! i)" by (simp add: Cols_key_def)
  show ?case
  proof (cases "Label (fst (key ! i)) \<in> set tcols")
    case True
    with Cons.IH[of vs cs j] Cons.prems c show ?thesis
      by (simp add: ContainsStr_iff)
  next
    case False
    with Cons.prems have j: "j < length cs" by simp
    have "sortedKey_rest tcols key (i # ids) (cs, vs, j) =
            sortedKey_rest tcols key ids (cs[j := fst (key ! i)], vs[j := snd (key ! i)], Suc j)"
      using False c j Cons.prems(1)
      by (simp add: ContainsStr_iff write_slot_def Value_key_def)
    also have "\<dots> = Some (take j cs
                   @ map (\<lambda>i. fst (key ! i)) (filter (\<lambda>i. Label (fst (key ! i)) \<notin> set tcols) (i # ids))
                   @ drop (j + length (filter (\<lambda>i. Label (fst (key ! i)) \<notin> set tcols) (i # ids))) cs,
                 take j vs
                   @ map (\<lambda>i. snd (key ! i)) (filter (\<lambda>i. Label (fst (key ! i)) \<notin> set tcols) (i # ids))
                   @ drop (j + length (filter (\<lambda>i. Label (fst (key ! i)) \<notin> set tcols) (i # ids))) vs,
                 j + length (filter (\<lambda>i. Label (fst (key ! i)) \<notin> set tcols) (i # ids)))"
      using Cons.IH[of "vs[j := snd (key ! i)]" "cs[j := fst (key ! i)]" "Suc j"]
        Cons.prems False j
      by (simp add: take_Suc_update)
    finally show ?thesis .
  qed
qed

lemma filter_upt_nth:
  "map (\<lambda>i. xs ! i) (filter (\<lambda>i. P (xs ! i)) [0..<length xs]) = filter P xs"
proof -
  have "filter P (map (\<lambda>i. xs ! i) [0..<length xs]) = filter P xs"
    by (simp add: map_nth)
  then show ?thesis by (simp add: filter_map comp_def)
qed

lemma key_back_conv:
  "map (\<lambda>i. key ! i) (filter (\<lambda>i. Label (fst (key ! i)) \<notin> set tcols) [0..<length key])
     = key_back tcols key"
  unfolding key_back_def by (rule filter_upt_nth[of key "\<lambda>p. Label (fst p) \<notin> set tcols"])

lemma length_key_back_idx:
  "length (filter (\<lambda>i. Label (fst (key ! i)) \<notin> set tcols) [0..<length key])
     = length (key_back tcols key)"
  using arg_cong[OF key_back_conv[of key tcols], of length] by simp

lemma sortedKey_arrays_run:
  assumes "length (key_front tcols key) + length (key_back tcols key) \<le> length key"
  shows "sortedKey_arrays tcols key =
           Some (map fst (key_front tcols key @ key_back tcols key)
                   @ replicate (length key - (length (key_front tcols key) + length (key_back tcols key))) zeroColMeta,
                 map snd (key_front tcols key @ key_back tcols key)
                   @ replicate (length key - (length (key_front tcols key) + length (key_back tcols key))) VNil,
                 length (key_front tcols key) + length (key_back tcols key))"
proof -
  let ?n = "length key"
  let ?F = "filter (HasCol key) tcols"
  let ?I = "filter (\<lambda>i. Label (fst (key ! i)) \<notin> set tcols) [0..<?n]"
  have lf: "length ?F = length (key_front tcols key)" by (simp add: key_front_def)
  have li: "length ?I = length (key_back tcols key)" by (rule length_key_back_idx)
  have 1: "sortedKey_labels tcols key (replicate ?n zeroColMeta, replicate ?n VNil, 0) =
        Some (map (fst \<circ> key_entry key) ?F @ replicate (?n - length ?F) zeroColMeta,
              map (snd \<circ> key_entry key) ?F @ replicate (?n - length ?F) VNil,
              length ?F)"
  proof -
    have a: "length (replicate ?n VNil) = length (replicate ?n zeroColMeta)" by simp
    have b: "0 + length ?F \<le> length (replicate ?n zeroColMeta)" using assms lf by simp
    show ?thesis
      unfolding sortedKey_labels_run[OF a b] by simp
  qed
  have 2: "sortedKey_rest tcols key [0..<?n]
             (map (fst \<circ> key_entry key) ?F @ replicate (?n - length ?F) zeroColMeta,
              map (snd \<circ> key_entry key) ?F @ replicate (?n - length ?F) VNil,
              length ?F) =
        Some (map (fst \<circ> key_entry key) ?F @ map (\<lambda>i. fst (key ! i)) ?I
                @ replicate (?n - (length ?F + length ?I)) zeroColMeta,
              map (snd \<circ> key_entry key) ?F @ map (\<lambda>i. snd (key ! i)) ?I
                @ replicate (?n - (length ?F + length ?I)) VNil,
              length ?F + length ?I)"
  proof -
    let ?cs = "map (fst \<circ> key_entry key) ?F @ replicate (?n - length ?F) zeroColMeta"
    let ?vs = "map (snd \<circ> key_entry key) ?F @ replicate (?n - length ?F) VNil"
    have a: "length ?vs = length ?cs" by simp
    have b: "\<forall>i\<in>set [0..<?n]. i < length key" by simp
    have c: "length ?F + length ?I \<le> length ?cs" using assms lf li by simp
    have d: "drop (length ?F + length ?I) ?cs = replicate (?n - (length ?F + length ?I)) zeroColMeta"
      "drop (length ?F + length ?I) ?vs = replicate (?n - (length ?F + length ?I)) VNil"
      by simp_all
    have e: "take (length ?F) ?cs = map (fst \<circ> key_entry key) ?F"
      "take (length ?F) ?vs = map (snd \<circ> key_entry key) ?F" by simp_all
    show ?thesis
      unfolding sortedKey_rest_run[OF a b c] d e by simp
  qed
  have g1: "map fst (key_front tcols key @ key_back tcols key) =
               map (fst \<circ> key_entry key) ?F @ map (\<lambda>i. fst (key ! i)) ?I"
    unfolding key_back_conv[of key tcols, symmetric] key_front_def by (simp add: comp_def)
  have g2: "map snd (key_front tcols key @ key_back tcols key) =
               map (snd \<circ> key_entry key) ?F @ map (\<lambda>i. snd (key ! i)) ?I"
    unfolding key_back_conv[of key tcols, symmetric] key_front_def by (simp add: comp_def)
  have g3: "length (key_front tcols key) + length (key_back tcols key) = length ?F + length ?I"
    unfolding li lf ..
  show ?thesis
    unfolding g1 g2 g3 sortedKey_arrays_def Let_def Cols_key_def length_map 1 option.case 2
    by (simp only: append_assoc)
qed

lemma length_key_front:
  assumes "distinct (filter (HasCol key) tcols)"
  shows "length (key_front tcols key) = card (set tcols \<inter> Label ` fst ` set key)"
proof -
  have "length (key_front tcols key) = length (filter (HasCol key) tcols)"
    by (simp add: key_front_def)
  also have "\<dots> = card (set (filter (HasCol key) tcols))"
    by (rule distinct_card[symmetric]) (rule assms)
  also have "set (filter (HasCol key) tcols) = set tcols \<inter> Label ` fst ` set key"
    by (auto simp: HasCol_iff)
  finally show ?thesis .
qed

lemma length_key_sorted_cols:
  "card (set tcols \<inter> Label ` fst ` set key)
     \<le> length (filter (\<lambda>p. Label (fst p) \<in> set tcols) key)"
proof -
  let ?S = "filter (\<lambda>p. Label (fst p) \<in> set tcols) key"
  have "set tcols \<inter> Label ` fst ` set key = (\<lambda>p. Label (fst p)) ` set ?S"
    by auto
  then have "card (set tcols \<inter> Label ` fst ` set key) \<le> card (set ?S)"
    by (simp add: card_image_le)
  also have "\<dots> \<le> length ?S" by (rule card_length)
  finally show ?thesis .
qed

lemma length_key_sorted_cols_distinct:
  assumes "distinct (map Label (Cols_key key))"
  shows "length (filter (\<lambda>p. Label (fst p) \<in> set tcols) key)
           = card (set tcols \<inter> Label ` fst ` set key)"
proof -
  let ?ls = "map (\<lambda>p. Label (fst p)) key"
  have d: "distinct ?ls" using assms by (simp add: Cols_key_def comp_def)
  have "length (filter (\<lambda>p. Label (fst p) \<in> set tcols) key)
          = length (filter (\<lambda>l. l \<in> set tcols) ?ls)"
    by (simp add: filter_map comp_def)
  also have "\<dots> = card (set (filter (\<lambda>l. l \<in> set tcols) ?ls))"
    by (rule distinct_card[symmetric]) (rule distinct_filter[OF d])
  also have "set (filter (\<lambda>l. l \<in> set tcols) ?ls) = set tcols \<inter> Label ` fst ` set key"
    by auto
  finally show ?thesis .
qed

lemma key_split_length:
  "length (filter (\<lambda>p. Label (fst p) \<in> set tcols) key) + length (key_back tcols key) = length key"
  unfolding key_back_def by (rule sum_length_filter_compl)

lemma key_parts_fit:
  assumes "distinct (filter (HasCol key) tcols)"
  shows "length (key_front tcols key) + length (key_back tcols key) \<le> length key"
  using length_key_front[OF assms] length_key_sorted_cols[of tcols key]
    key_split_length[of tcols key] by linarith

lemma key_parts_fill:
  assumes "distinct (filter (HasCol key) tcols)" and "distinct (map Label (Cols_key key))"
  shows "length (key_front tcols key) + length (key_back tcols key) = length key"
  using length_key_front[OF assms(1)] length_key_sorted_cols_distinct[OF assms(2), of tcols]
    key_split_length[of tcols key] by linarith

lemma key_front_labels:
  "map (\<lambda>p. Label (fst p)) (key_front tcols key) = filter (HasCol key) tcols"
proof -
  have "map (\<lambda>p. Label (fst p)) (key_front tcols key)
          = map (\<lambda>l. Label (fst (key_entry key l))) (filter (HasCol key) tcols)"
    by (simp add: key_front_def comp_def)
  also have "\<dots> = map (\<lambda>l. l) (filter (HasCol key) tcols)"
    by (rule map_cong) (simp_all add: key_entry_in)
  finally show ?thesis by simp
qed

lemma key_front_set:
  assumes "distinct (map Label (Cols_key key))"
  shows "set (key_front tcols key) = set (filter (\<lambda>p. Label (fst p) \<in> set tcols) key)"
proof
  show "set (key_front tcols key) \<subseteq> set (filter (\<lambda>p. Label (fst p) \<in> set tcols) key)"
    by (auto simp: key_front_def key_entry_in)
next
  have inj: "inj_on (\<lambda>p. Label (fst p)) (set key)"
    using assms by (simp add: Cols_key_def comp_def distinct_map)
  show "set (filter (\<lambda>p. Label (fst p) \<in> set tcols) key) \<subseteq> set (key_front tcols key)"
  proof
    fix p assume "p \<in> set (filter (\<lambda>p. Label (fst p) \<in> set tcols) key)"
    then have p: "p \<in> set key" "Label (fst p) \<in> set tcols" by simp_all
    then have h: "HasCol key (Label (fst p))" by (auto simp: HasCol_iff)
    from key_entry_in[OF h] p(1) inj have "key_entry key (Label (fst p)) = p"
      by (auto dest: inj_onD)
    with h p(2) show "p \<in> set (key_front tcols key)"
      by (force simp: key_front_def)
  qed
qed

lemma key_front_mset:
  assumes "distinct (filter (HasCol key) tcols)" and "distinct (map Label (Cols_key key))"
  shows "mset (key_front tcols key) = mset (filter (\<lambda>p. Label (fst p) \<in> set tcols) key)"
proof -
  have "distinct (map (\<lambda>p. Label (fst p)) (key_front tcols key))"
    unfolding key_front_labels using assms(1) by simp
  then have 1: "distinct (key_front tcols key)" by (simp add: distinct_map)
  have "distinct (map (\<lambda>p. Label (fst p)) key)"
    using assms(2) by (simp add: Cols_key_def comp_def)
  then have "distinct key" by (simp add: distinct_map)
  then have 2: "distinct (filter (\<lambda>p. Label (fst p) \<in> set tcols) key)" by simp
  from set_eq_iff_mset_eq_distinct[OF 1 2] key_front_set[OF assms(2), of tcols]
  show ?thesis by blast
qed

lemma key_reordered_mset:
  assumes "distinct (filter (HasCol key) tcols)" and "distinct (map Label (Cols_key key))"
  shows "mset (key_front tcols key @ key_back tcols key) = mset key"
proof -
  have "mset (key_front tcols key @ key_back tcols key)
          = mset (filter (\<lambda>p. Label (fst p) \<in> set tcols) key)
            + mset (filter (\<lambda>p. \<not> Label (fst p) \<in> set tcols) key)"
    using key_front_mset[OF assms] by (simp add: key_back_def)
  then show ?thesis by simp
qed

lemma sortedKey_distinct:
  assumes "distinct (filter (HasCol key) tcols)" and "distinct (map Label (Cols_key key))"
  shows "sortedKey_arrays tcols key =
           Some (map fst (key_front tcols key @ key_back tcols key),
                 map snd (key_front tcols key @ key_back tcols key), length key)"
  unfolding sortedKey_arrays_run[OF key_parts_fit[OF assms(1)]] key_parts_fill[OF assms]
  by simp

lemma Process_key_hit:
  "\<exists>l\<in>set ls. HasCol key l \<Longrightarrow> Process_key tcols ls key = sortedKey tcols key"
  by (induction ls) auto

lemma Process_key_miss:
  "\<forall>l\<in>set ls. \<not> HasCol key l \<Longrightarrow> Process_key tcols ls key = Some key"
  by (induction ls) auto

lemma sortedKey_reordered:
  assumes "distinct (filter (HasCol key) tcols)" and "wf_key key"
  shows "sortedKey tcols key = Some (key_front tcols key @ key_back tcols key)"
proof -
  have "zip (map fst (key_front tcols key @ key_back tcols key))
            (map snd (key_front tcols key @ key_back tcols key))
          = key_front tcols key @ key_back tcols key"
    by (rule zip_map_fst_snd)
  then show ?thesis
    unfolding sortedKey_def sortedKey_distinct[OF assms[unfolded wf_key_def]] NewPartitionKey_def
    by simp
qed

lemma key_back_labels:
  "map (\<lambda>p. Label (fst p)) (key_back tcols key)
     = filter (\<lambda>l. l \<notin> set tcols) (map Label (Cols_key key))"
  by (simp add: key_back_def Cols_key_def filter_map comp_def)

lemma sortedKey_arrays_lengths:
  assumes "distinct (filter (HasCol key) tcols)"
  shows "\<exists>cs vs j. sortedKey_arrays tcols key = Some (cs, vs, j) \<and>
           length cs = length (Cols_key key) \<and> length vs = length (Cols_key key) \<and>
           j \<le> length (Cols_key key)"
  unfolding sortedKey_arrays_run[OF key_parts_fit[OF assms]]
  using key_parts_fit[OF assms] by (simp add: Cols_key_def)

text \<open>Evaluation of the key reordering on concrete keys.\<close>

lemmas key_eval = Process_def sortedKey_def sortedKey_arrays_def write_slot_def HasCol_def
  ColIdx_def Cols_key_def Value_key_def NewPartitionKey_def NewSortTransformation_def
  zeroColMeta_def wf_key_def key_front_def key_back_def key_entry_def Let_def upt_conv_Cons

text \<open>
  The key reordering where no key column is listed twice among the configured sort
  columns (a label that is not a key column may be repeated) and the labels of the key's
  columns are pairwise distinct: when some configured sort column is a key column,
  \<open>Process\<close> goes on with the key \<open>sortedKey(key)\<close>. Its columns are the configured
  sort columns that are key columns, in the configured order, followed by the remaining
  key columns in their original order; every entry is an entry of the input key, so each
  column keeps its value; and the output key is a permutation of the input key with
  pairwise distinct labels.
\<close>

lemma Process_sorted_key:
  assumes "distinct (filter (HasCol (Key b)) (cols t))" and "wf_key (Key b)" and "\<exists>label\<in>set (cols t). HasCol (Key b) label"
  shows "Process t did b = Process_body t b (key_front (cols t) (Key b) @ key_back (cols t) (Key b)) \<and>
         sortedKey (cols t) (Key b) = Some (key_front (cols t) (Key b) @ key_back (cols t) (Key b)) \<and>
         map Label (Cols_key (key_front (cols t) (Key b) @ key_back (cols t) (Key b))) =
           filter (HasCol (Key b)) (cols t) @
           filter (\<lambda>l. \<not> ContainsStr (cols t) l) (map Label (Cols_key (Key b))) \<and>
         key_back (cols t) (Key b) = filter (\<lambda>p. \<not> ContainsStr (cols t) (Label (fst p))) (Key b) \<and>
         set (key_front (cols t) (Key b)) \<subseteq> set (Key b) \<and>
         mset (key_front (cols t) (Key b) @ key_back (cols t) (Key b)) = mset (Key b) \<and>
         wf_key (key_front (cols t) (Key b) @ key_back (cols t) (Key b))"
proof -
  let ?k = "key_front (cols t) (Key b) @ key_back (cols t) (Key b)"
  have sk: "sortedKey (cols t) (Key b) = Some ?k"
    by (rule sortedKey_reordered[OF assms(1,2)])
  have 1: "Process t did b = Process_body t b ?k"
    unfolding Process_def Process_key_hit[OF assms(3)] sk by simp
  have 3: "map Label (Cols_key ?k) =
           filter (HasCol (Key b)) (cols t) @
           filter (\<lambda>l. \<not> ContainsStr (cols t) l) (map Label (Cols_key (Key b)))"
    using key_front_labels[of "cols t" "Key b"] key_back_labels[of "cols t" "Key b"]
    by (simp add: Cols_key_def comp_def ContainsStr_iff)
  have 4: "key_back (cols t) (Key b) = filter (\<lambda>p. \<not> ContainsStr (cols t) (Label (fst p))) (Key b)"
    by (simp add: key_back_def ContainsStr_iff)
  have 5: "set (key_front (cols t) (Key b)) \<subseteq> set (Key b)"
    by (auto simp: key_front_def key_entry_in)
  have 6: "mset ?k = mset (Key b)"
    by (rule key_reordered_mset[OF assms(1) assms(2)[unfolded wf_key_def]])
  have "mset (map Label (Cols_key ?k)) = mset (map Label (Cols_key (Key b)))"
    unfolding Cols_key_def map_map mset_map 6 ..
  then have 7: "wf_key ?k"
    using assms(2) unfolding wf_key_def by (metis mset_eq_imp_distinct_iff)
  from 1 sk 3 4 5 6 7 show ?thesis by blast
qed

lemma Process_sorted_key_example:
  "Process (NewSortTransformation () Map.empty
              \<lparr>SortProcedureSpec.Cols = [''region'', ''_value'', ''host'', ''_value''], SortProcedureSpec.Desc = False\<rparr>) 0
     \<lparr>Key = [(\<lparr>Label = ''host'', Type = TString\<rparr>, VString ''h1''),
              (\<lparr>Label = ''dc'', Type = TString\<rparr>, VString ''x''),
              (\<lparr>Label = ''region'', Type = TString\<rparr>, VString ''eu'')],
      Cols_blk = [\<lparr>Label = ''host'', Type = TString\<rparr>, \<lparr>Label = ''dc'', Type = TString\<rparr>,
                  \<lparr>Label = ''region'', Type = TString\<rparr>, \<lparr>Label = ''_value'', Type = TInt\<rparr>],
      Rows_blk = [[VString ''h1'', VString ''x'', VString ''eu'', VInt 1]]\<rparr>
   = Process_body (NewSortTransformation () Map.empty
              \<lparr>SortProcedureSpec.Cols = [''region'', ''_value'', ''host'', ''_value''], SortProcedureSpec.Desc = False\<rparr>)
     \<lparr>Key = [(\<lparr>Label = ''host'', Type = TString\<rparr>, VString ''h1''),
              (\<lparr>Label = ''dc'', Type = TString\<rparr>, VString ''x''),
              (\<lparr>Label = ''region'', Type = TString\<rparr>, VString ''eu'')],
      Cols_blk = [\<lparr>Label = ''host'', Type = TString\<rparr>, \<lparr>Label = ''dc'', Type = TString\<rparr>,
                  \<lparr>Label = ''region'', Type = TString\<rparr>, \<lparr>Label = ''_value'', Type = TInt\<rparr>],
      Rows_blk = [[VString ''h1'', VString ''x'', VString ''eu'', VInt 1]]\<rparr>
     [(\<lparr>Label = ''region'', Type = TString\<rparr>, VString ''eu''),
      (\<lparr>Label = ''host'', Type = TString\<rparr>, VString ''h1''),
      (\<lparr>Label = ''dc'', Type = TString\<rparr>, VString ''x'')]"
  using Process_sorted_key[where did = 0 and t =
     "NewSortTransformation () Map.empty
              \<lparr>SortProcedureSpec.Cols = [''region'', ''_value'', ''host'', ''_value''], SortProcedureSpec.Desc = False\<rparr>" and b =
     "\<lparr>Key = [(\<lparr>Label = ''host'', Type = TString\<rparr>, VString ''h1''),
              (\<lparr>Label = ''dc'', Type = TString\<rparr>, VString ''x''),
              (\<lparr>Label = ''region'', Type = TString\<rparr>, VString ''eu'')],
      Cols_blk = [\<lparr>Label = ''host'', Type = TString\<rparr>, \<lparr>Label = ''dc'', Type = TString\<rparr>,
                  \<lparr>Label = ''region'', Type = TString\<rparr>, \<lparr>Label = ''_value'', Type = TInt\<rparr>],
      Rows_blk = [[VString ''h1'', VString ''x'', VString ''eu'', VInt 1]]\<rparr>"]
  by (simp add: NewSortTransformation_def wf_key_def HasCol_def ColIdx_def Cols_key_def
        key_front_def key_back_def key_entry_def)

text \<open>
  C1. The block's partition key \<open>[host, region]\<close> shares the column \<open>host\<close> with the
  configured sort columns \<open>[host, host]\<close>, so \<open>Process\<close> calls \<open>sortedKey\<close>. Its
  arrays have one slot per key column. The first loop writes a slot for every listed
  label that is a key column, here slots 0 and 1 for \<open>host\<close> twice; only the second
  loop guards against placing a column that was placed already. It then writes
  \<open>region\<close> to slot 2 of arrays of length 2 (\<open>cols[j] = c\<close>), the index is out of
  range, and \<open>Process\<close> panics: no reordered key, and no permutation of the input key,
  comes out.
\<close>

theorem Process_repeated_sort_column:
  "HasCol [(\<lparr>Label = ''host'', Type = TString\<rparr>, VString ''h1''),
           (\<lparr>Label = ''region'', Type = TString\<rparr>, VString ''eu'')] ''host'' \<and>
   wf_key [(\<lparr>Label = ''host'', Type = TString\<rparr>, VString ''h1''),
           (\<lparr>Label = ''region'', Type = TString\<rparr>, VString ''eu'')] \<and>
   Process (NewSortTransformation () Map.empty
              \<lparr>SortProcedureSpec.Cols = [''host'', ''host''], SortProcedureSpec.Desc = False\<rparr>) 0
     \<lparr>Key = [(\<lparr>Label = ''host'', Type = TString\<rparr>, VString ''h1''),
              (\<lparr>Label = ''region'', Type = TString\<rparr>, VString ''eu'')],
      Cols_blk = [\<lparr>Label = ''host'', Type = TString\<rparr>, \<lparr>Label = ''region'', Type = TString\<rparr>,
                  \<lparr>Label = ''_value'', Type = TInt\<rparr>],
      Rows_blk = [[VString ''h1'', VString ''eu'', VInt 1]]\<rparr> = None"
  by (simp add: key_eval)

text \<open>
  C5. When no configured sort column is a column of the block's partition key, the loop
  over \<open>t.cols\<close> leaves the key as it is, and \<open>Process\<close> goes on to the cache with
  the block's own key: the same columns, in the same order, with the same values.
\<close>

theorem Process_key_passthrough:
  assumes "\<forall>label\<in>set (cols t). \<not> HasCol (Key b) label"
  shows "Process_key (cols t) (cols t) (Key b) = Some (Key b) \<and>
         Process t did b = Process_body t b (Key b)"
  unfolding Process_def Process_key_miss[OF assms] by simp

theorem Process_key_passthrough_witness:
  "Process (NewSortTransformation () Map.empty
              \<lparr>SortProcedureSpec.Cols = [''_value''], SortProcedureSpec.Desc = False\<rparr>) 0
     \<lparr>Key = [(\<lparr>Label = ''host'', Type = TString\<rparr>, VString ''h1'')],
      Cols_blk = [\<lparr>Label = ''host'', Type = TString\<rparr>, \<lparr>Label = ''_value'', Type = TInt\<rparr>],
      Rows_blk = [[VString ''h1'', VInt 1]]\<rparr>
   = Process_body (NewSortTransformation () Map.empty
              \<lparr>SortProcedureSpec.Cols = [''_value''], SortProcedureSpec.Desc = False\<rparr>)
     \<lparr>Key = [(\<lparr>Label = ''host'', Type = TString\<rparr>, VString ''h1'')],
      Cols_blk = [\<lparr>Label = ''host'', Type = TString\<rparr>, \<lparr>Label = ''_value'', Type = TInt\<rparr>],
      Rows_blk = [[VString ''h1'', VInt 1]]\<rparr>
     [(\<lparr>Label = ''host'', Type = TString\<rparr>, VString ''h1'')]"
  using Process_key_passthrough[of
     "NewSortTransformation () Map.empty
              \<lparr>SortProcedureSpec.Cols = [''_value''], SortProcedureSpec.Desc = False\<rparr>"
     "\<lparr>Key = [(\<lparr>Label = ''host'', Type = TString\<rparr>, VString ''h1'')],
      Cols_blk = [\<lparr>Label = ''host'', Type = TString\<rparr>, \<lparr>Label = ''_value'', Type = TInt\<rparr>],
      Rows_blk = [[VString ''h1'', VInt 1]]\<rparr>" 0]
  by (simp add: NewSortTransformation_def HasCol_def ColIdx_def Cols_key_def)

text \<open>
  C9. For pairwise distinct configured sort columns, every write of \<open>sortedKey\<close> into
  its two arrays of length \<open>len(key.Cols())\<close> stays in bounds: the run ends with
  \<open>Some\<close> arrays of that length, for every key. When the labels of the key's columns
  are pairwise distinct as well, the final write index is the number of key columns and
  the arrays hold exactly the entries of the key, so the returned key is fully populated.
\<close>

theorem sortedKey_in_bounds:
  assumes "distinct tcols"
  shows "(\<exists>cs vs j. sortedKey_arrays tcols key = Some (cs, vs, j) \<and>
            length cs = length (Cols_key key) \<and> length vs = length (Cols_key key) \<and>
            j \<le> length (Cols_key key)) \<and>
         (wf_key key \<longrightarrow>
            (\<exists>cs vs. sortedKey_arrays tcols key = Some (cs, vs, length (Cols_key key)) \<and>
               mset (zip cs vs) = mset key \<and>
               sortedKey tcols key = Some (zip cs vs)))"
proof
  show "\<exists>cs vs j. sortedKey_arrays tcols key = Some (cs, vs, j) \<and>
            length cs = length (Cols_key key) \<and> length vs = length (Cols_key key) \<and>
            j \<le> length (Cols_key key)"
    by (rule sortedKey_arrays_lengths[OF distinct_filter[OF assms]])
next
  show "wf_key key \<longrightarrow>
            (\<exists>cs vs. sortedKey_arrays tcols key = Some (cs, vs, length (Cols_key key)) \<and>
               mset (zip cs vs) = mset key \<and>
               sortedKey tcols key = Some (zip cs vs))"
  proof
    assume wf: "wf_key key"
    note d = distinct_filter[OF assms, of "HasCol key"]
    let ?k = "key_front tcols key @ key_back tcols key"
    have z: "zip (map fst ?k) (map snd ?k) = ?k" by (rule zip_map_fst_snd)
    have a: "sortedKey_arrays tcols key = Some (map fst ?k, map snd ?k, length (Cols_key key))"
      unfolding sortedKey_distinct[OF d wf[unfolded wf_key_def]] by (simp add: Cols_key_def)
    have b: "mset (zip (map fst ?k) (map snd ?k)) = mset key"
      unfolding z by (rule key_reordered_mset[OF d wf[unfolded wf_key_def]])
    have c: "sortedKey tcols key = Some (zip (map fst ?k) (map snd ?k))"
      unfolding z by (rule sortedKey_reordered[OF d wf])
    from a b c show "\<exists>cs vs. sortedKey_arrays tcols key = Some (cs, vs, length (Cols_key key)) \<and>
               mset (zip cs vs) = mset key \<and>
               sortedKey tcols key = Some (zip cs vs)"
      by blast
  qed
qed

theorem sortedKey_in_bounds_witness:
  "sortedKey_arrays [''region'', ''_value'', ''host'']
     [(\<lparr>Label = ''host'', Type = TString\<rparr>, VString ''h1''),
      (\<lparr>Label = ''dc'', Type = TString\<rparr>, VString ''x''),
      (\<lparr>Label = ''region'', Type = TString\<rparr>, VString ''eu'')]
   = Some ([\<lparr>Label = ''region'', Type = TString\<rparr>, \<lparr>Label = ''host'', Type = TString\<rparr>,
            \<lparr>Label = ''dc'', Type = TString\<rparr>],
           [VString ''eu'', VString ''h1'', VString ''x''], 3)"
  using sortedKey_in_bounds[of "[''region'', ''_value'', ''host'']"
     "[(\<lparr>Label = ''host'', Type = TString\<rparr>, VString ''h1''),
      (\<lparr>Label = ''dc'', Type = TString\<rparr>, VString ''x''),
      (\<lparr>Label = ''region'', Type = TString\<rparr>, VString ''eu'')]"]
  by (simp add: key_eval)

section \<open>Properties of the transformation node\<close>

text \<open>Evaluation of \<open>Process\<close> on concrete blocks.\<close>

lemmas node_eval = Process_body_def nilIntSlice_def BlockBuilder_cache_def NewBlockBuilder_def
  AddBlockCols_def NCols_def Process_colMap_def cap_def view_def AppendBlock_def Sort_bb_def
  row_key_def

lemma BlockBuilder_cache_hit:
  "c key = Some bb \<Longrightarrow> BlockBuilder_cache c key = (bb, False, c)"
  by (simp add: BlockBuilder_cache_def)

lemma BlockBuilder_cache_miss:
  "c key = None \<Longrightarrow>
   BlockBuilder_cache c key = (NewBlockBuilder key, True, c(key \<mapsto> NewBlockBuilder key))"
  by (simp add: BlockBuilder_cache_def)

lemma Process_body_duplicate:
  "cache t key = Some bb \<Longrightarrow> Process_body t b key = Some (Some (DuplicateBlock (Key b)), t)"
  by (simp add: Process_body_def BlockBuilder_cache_hit)

lemma Process_body_ok:
  assumes "Process_body t b key = Some (None, t')"
  shows "cache t key = None \<and> cols t' = cols t \<and> desc t' = desc t \<and> d t' = d t \<and>
         (\<exists>bb. cache t' = (cache t)(key \<mapsto> bb)) \<and>
         colMap t' = Process_colMap (colMap t) (length (Cols_blk b))"
proof (cases "cache t key")
  case (Some bb)
  with assms show ?thesis by (simp add: Process_body_duplicate)
next
  case None
  with assms show ?thesis
    by (auto simp: Process_body_def BlockBuilder_cache_miss Let_def AddBlockCols_def NCols_def
          NewBlockBuilder_def split: option.splits)
qed

lemma Process_body_err:
  assumes "Process_body t b key = Some (Some e, t')"
  shows "t' = t \<and> e = DuplicateBlock (Key b) \<and> cache t key \<noteq> None"
proof (cases "cache t key")
  case (Some bb)
  with assms show ?thesis by (simp add: Process_body_duplicate)
next
  case None
  with assms show ?thesis
    by (auto simp: Process_body_def BlockBuilder_cache_miss Let_def split: option.splits)
qed

lemma Process_frame:
  assumes "Process t did b = Some (e, t')"
  shows "cols t' = cols t \<and> dom (cache t) \<subseteq> dom (cache t')"
proof -
  from assms obtain key where k: "Process_body t b key = Some (e, t')"
    by (auto simp: Process_def split: option.splits)
  show ?thesis
  proof (cases e)
    case None
    with Process_body_ok[of t b key t'] k show ?thesis by auto
  next
    case (Some err)
    with Process_body_err[of t b key err t'] k show ?thesis by auto
  qed
qed

lemma Process_seq_frame:
  "Process_seq t did bs = Some t' \<Longrightarrow> cols t' = cols t \<and> dom (cache t) \<subseteq> dom (cache t')"
proof (induction bs arbitrary: t)
  case Nil
  then show ?case by simp
next
  case (Cons b bs)
  from Cons.prems obtain e t1 where 1: "Process t did b = Some (e, t1)"
    and 2: "Process_seq t1 did bs = Some t'"
    by (auto split: option.splits)
  from Process_frame[OF 1] Cons.IH[OF 2] show ?case by auto
qed

text \<open>
  C3. Within one stream of \<open>Process\<close> calls, once a block has been processed, a later
  block whose (possibly reordered) output key is the same finds the builder of that key
  in the cache (\<open>created = false\<close>): \<open>Process\<close> returns the duplicate-key error, and
  the node after the call is the node before it, so nothing of the second block has
  reached any builder.
\<close>

theorem Process_duplicate_key:
  assumes "Process t did b1 = Some (None, t1)"
    and "Process_seq t1 did bs = Some t2"
    and "Process_key (cols t) (cols t) (Key b2) = Process_key (cols t) (cols t) (Key b1)"
  shows "Process t2 did b2 = Some (Some (DuplicateBlock (Key b2)), t2)"
proof -
  from assms(1) obtain key where k: "Process_key (cols t) (cols t) (Key b1) = Some key"
    and b: "Process_body t b1 key = Some (None, t1)"
    by (auto simp: Process_def split: option.splits)
  from Process_body_ok[OF b] have "cache t1 key \<noteq> None" "cols t1 = cols t" by auto
  with Process_seq_frame[OF assms(2)] have c: "cache t2 key \<noteq> None" "cols t2 = cols t"
    by auto
  then obtain bb where "cache t2 key = Some bb" by auto
  from Process_body_duplicate[OF this, of b2] show ?thesis
    unfolding Process_def c(2) assms(3) k by simp
qed

theorem Process_duplicate_key_witness:
  "\<exists>t1 t2.
     Process (NewSortTransformation () Map.empty
                \<lparr>SortProcedureSpec.Cols = [''region''], SortProcedureSpec.Desc = False\<rparr>) 0
       \<lparr>Key = [(\<lparr>Label = ''host'', Type = TString\<rparr>, VString ''h1''),
                (\<lparr>Label = ''region'', Type = TString\<rparr>, VString ''eu'')],
        Cols_blk = [\<lparr>Label = ''host'', Type = TString\<rparr>, \<lparr>Label = ''region'', Type = TString\<rparr>],
        Rows_blk = [[VString ''h1'', VString ''eu'']]\<rparr> = Some (None, t1) \<and>
     Process_seq t1 0
       [\<lparr>Key = [], Cols_blk = [\<lparr>Label = ''_value'', Type = TInt\<rparr>], Rows_blk = [[VInt 7]]\<rparr>]
       = Some t2 \<and>
     Process t2 0
       \<lparr>Key = [(\<lparr>Label = ''region'', Type = TString\<rparr>, VString ''eu''),
                (\<lparr>Label = ''host'', Type = TString\<rparr>, VString ''h1'')],
        Cols_blk = [\<lparr>Label = ''region'', Type = TString\<rparr>, \<lparr>Label = ''host'', Type = TString\<rparr>],
        Rows_blk = [[VString ''eu'', VString ''h1'']]\<rparr>
       = Some (Some (DuplicateBlock
                      [(\<lparr>Label = ''region'', Type = TString\<rparr>, VString ''eu''),
                       (\<lparr>Label = ''host'', Type = TString\<rparr>, VString ''h1'')]), t2)"
proof -
  let ?t = "NewSortTransformation () Map.empty
                \<lparr>SortProcedureSpec.Cols = [''region''], SortProcedureSpec.Desc = False\<rparr>"
  let ?b1 = "\<lparr>Key = [(\<lparr>Label = ''host'', Type = TString\<rparr>, VString ''h1''),
                (\<lparr>Label = ''region'', Type = TString\<rparr>, VString ''eu'')],
        Cols_blk = [\<lparr>Label = ''host'', Type = TString\<rparr>, \<lparr>Label = ''region'', Type = TString\<rparr>],
        Rows_blk = [[VString ''h1'', VString ''eu'']]\<rparr>"
  let ?b2 = "\<lparr>Key = [(\<lparr>Label = ''region'', Type = TString\<rparr>, VString ''eu''),
                (\<lparr>Label = ''host'', Type = TString\<rparr>, VString ''h1'')],
        Cols_blk = [\<lparr>Label = ''region'', Type = TString\<rparr>, \<lparr>Label = ''host'', Type = TString\<rparr>],
        Rows_blk = [[VString ''eu'', VString ''h1'']]\<rparr>"
  let ?bs = "[\<lparr>Key = [], Cols_blk = [\<lparr>Label = ''_value'', Type = TInt\<rparr>], Rows_blk = [[VInt 7]]\<rparr>]"
  have "\<exists>t1 t2. Process ?t 0 ?b1 = Some (None, t1) \<and> Process_seq t1 0 ?bs = Some t2"
    by (simp add: key_eval node_eval)
  then obtain t1 t2 where p: "Process ?t 0 ?b1 = Some (None, t1)"
    and s: "Process_seq t1 0 ?bs = Some t2" by blast
  have k: "Process_key (cols ?t) (cols ?t) (Key ?b2) = Process_key (cols ?t) (cols ?t) (Key ?b1)"
    by (simp add: key_eval)
  from Process_duplicate_key[OF p s k] p s show ?thesis by auto
qed

text \<open>
  C6. \<open>RetractBlock\<close>, \<open>UpdateWatermark\<close>, \<open>UpdateProcessingTime\<close> and \<open>Finish\<close>
  each make the corresponding call on the Dataset with the arguments they got, return
  what that call returns, and change nothing of the node but the Dataset; on the
  recording Dataset the log grows by exactly that one call. \<open>RetractBlock\<close> forwards
  the key it was given, which never goes through \<open>sortedKey\<close>.
\<close>

theorem lifecycle_forwarding:
  "RetractBlock ds t did key =
     (fst (RetractBlock_d ds key (d t)), t\<lparr>d := snd (RetractBlock_d ds key (d t))\<rparr>) \<and>
   UpdateWatermark ds t did mark =
     (fst (UpdateWatermark_d ds mark (d t)), t\<lparr>d := snd (UpdateWatermark_d ds mark (d t))\<rparr>) \<and>
   UpdateProcessingTime ds t did pt =
     (fst (UpdateProcessingTime_d ds pt (d t)), t\<lparr>d := snd (UpdateProcessingTime_d ds pt (d t))\<rparr>) \<and>
   Finish ds t did err = t\<lparr>d := Finish_d ds err (d t)\<rparr> \<and>
   RetractBlock (recording res) u did key =
     (res (CallRetractBlock key), u\<lparr>d := d u @ [CallRetractBlock key]\<rparr>) \<and>
   UpdateWatermark (recording res) u did mark =
     (res (CallUpdateWatermark mark), u\<lparr>d := d u @ [CallUpdateWatermark mark]\<rparr>) \<and>
   UpdateProcessingTime (recording res) u did pt =
     (res (CallUpdateProcessingTime pt), u\<lparr>d := d u @ [CallUpdateProcessingTime pt]\<rparr>) \<and>
   Finish (recording res) u did err = u\<lparr>d := d u @ [CallFinish err]\<rparr>"
  by (simp add: RetractBlock_def UpdateWatermark_def UpdateProcessingTime_def Finish_def
        recording_def split: prod.splits)

lemma fill_identity_gen:
  "\<forall>j\<in>set js. j < length a \<Longrightarrow>
   fill_identity js a = map (\<lambda>i. if i \<in> set js then int i else a ! i) [0..<length a]"
proof (induction js arbitrary: a)
  case Nil
  then show ?case by (simp add: map_nth)
next
  case (Cons j js)
  then have "fill_identity js (a[j := int j]) =
      map (\<lambda>i. if i \<in> set js then int i else (a[j := int j]) ! i) [0..<length (a[j := int j])]"
    by simp
  then show ?case
    by (auto simp: nth_list_update)
qed

lemma fill_identity_upt:
  "fill_identity [0..<n] (replicate n 0) = map int [0..<n]"
  using fill_identity_gen[of "[0..<n]" "replicate n 0"] by simp

lemma Process_colMap_identity:
  assumes "colMap_inv cm"
  shows "colMap_inv (Process_colMap cm n) \<and> view (Process_colMap cm n) = map int [0..<n]"
proof (cases "cap cm < n")
  case True
  then show ?thesis
    by (simp add: Process_colMap_def colMap_inv_def view_def cap_def fill_identity_upt)
next
  case False
  then have "take n (map int [0..<cap cm]) = map int [0..<n]"
    by (simp add: take_map min_def)
  with False assms show ?thesis
    by (simp add: Process_colMap_def colMap_inv_def view_def cap_def)
qed

lemma Process_colMap_inv:
  assumes "Process t did b = Some (e, t')" and "colMap_inv (colMap t)"
  shows "colMap_inv (colMap t')"
proof -
  from assms(1) obtain key where k: "Process_body t b key = Some (e, t')"
    by (auto simp: Process_def split: option.splits)
  show ?thesis
  proof (cases e)
    case None
    with Process_body_ok[of t b key t'] k Process_colMap_identity[OF assms(2)]
    show ?thesis by simp
  next
    case (Some err)
    with Process_body_err[of t b key err t'] k assms(2) show ?thesis by simp
  qed
qed

lemma Process_seq_colMap_inv:
  "Process_seq t did bs = Some t' \<Longrightarrow> colMap_inv (colMap t) \<Longrightarrow> colMap_inv (colMap t')"
proof (induction bs arbitrary: t)
  case Nil
  then show ?case by simp
next
  case (Cons b bs)
  from Cons.prems(1) obtain e t1 where 1: "Process t did b = Some (e, t1)"
    and 2: "Process_seq t1 did bs = Some t'"
    by (auto split: option.splits)
  from Cons.IH[OF 2 Process_colMap_inv[OF 1 Cons.prems(2)]] show ?case .
qed

text \<open>
  C10. After any stream of \<open>Process\<close> calls on a new node, whatever the column counts
  of the blocks were, the column map that the next \<open>Process\<close> hands to the row copy,
  \<open>view (Process_colMap (colMap t) ncols)\<close>, is the identity mapping of length
  \<open>ncols\<close>. The backing array is the identity over its whole capacity; growing makes
  a new identity array, shrinking keeps the backing array.
\<close>

theorem colMap_identity:
  assumes "Process_seq (NewSortTransformation ds c spec) did bs = Some t"
  shows "view (Process_colMap (colMap t) n) = map int [0..<n] \<and>
         arr (colMap t) = map int [0..<cap (colMap t)] \<and>
         (cap (colMap t) < n \<longrightarrow> arr (Process_colMap (colMap t) n) = map int [0..<n]) \<and>
         (\<not> cap (colMap t) < n \<longrightarrow> arr (Process_colMap (colMap t) n) = arr (colMap t))"
proof -
  have "colMap_inv (colMap (NewSortTransformation ds c spec))"
    by (simp add: colMap_inv_def NewSortTransformation_def nilIntSlice_def cap_def)
  from Process_seq_colMap_inv[OF assms this] have i: "colMap_inv (colMap t)" .
  from Process_colMap_identity[OF i, of n] i show ?thesis
    by (simp add: colMap_inv_def Process_colMap_def fill_identity_upt)
qed

theorem colMap_identity_witness:
  "\<exists>t. Process_seq (NewSortTransformation () Map.empty
                \<lparr>SortProcedureSpec.Cols = [''_value''], SortProcedureSpec.Desc = False\<rparr>) 0
         [\<lparr>Key = [],
           Cols_blk = [\<lparr>Label = ''a'', Type = TInt\<rparr>, \<lparr>Label = ''b'', Type = TInt\<rparr>,
                       \<lparr>Label = ''_value'', Type = TInt\<rparr>],
           Rows_blk = [[VInt 1, VInt 2, VInt 3]]\<rparr>,
          \<lparr>Key = [(\<lparr>Label = ''a'', Type = TInt\<rparr>, VInt 1)],
           Cols_blk = [\<lparr>Label = ''a'', Type = TInt\<rparr>, \<lparr>Label = ''_value'', Type = TInt\<rparr>],
           Rows_blk = [[VInt 1, VInt 3]]\<rparr>] = Some t \<and>
       colMap t = \<lparr>arr = [0, 1, 2], len = 2\<rparr> \<and>
       view (Process_colMap (colMap t) 3) = [0, 1, 2] \<and>
       view (Process_colMap (colMap t) 1) = [0] \<and>
       view (Process_colMap (colMap t) 4) = [0, 1, 2, 3]"
proof -
  let ?t = "NewSortTransformation () Map.empty
                \<lparr>SortProcedureSpec.Cols = [''_value''], SortProcedureSpec.Desc = False\<rparr>"
  let ?bs = "[\<lparr>Key = [],
           Cols_blk = [\<lparr>Label = ''a'', Type = TInt\<rparr>, \<lparr>Label = ''b'', Type = TInt\<rparr>,
                       \<lparr>Label = ''_value'', Type = TInt\<rparr>],
           Rows_blk = [[VInt 1, VInt 2, VInt 3]]\<rparr>,
          \<lparr>Key = [(\<lparr>Label = ''a'', Type = TInt\<rparr>, VInt 1)],
           Cols_blk = [\<lparr>Label = ''a'', Type = TInt\<rparr>, \<lparr>Label = ''_value'', Type = TInt\<rparr>],
           Rows_blk = [[VInt 1, VInt 3]]\<rparr>]"
  have "\<exists>t. Process_seq ?t 0 ?bs = Some t \<and> colMap t = \<lparr>arr = [0, 1, 2], len = 2\<rparr>"
    by (simp add: key_eval node_eval)
  then obtain t where s: "Process_seq ?t 0 ?bs = Some t"
    and c: "colMap t = \<lparr>arr = [0, 1, 2], len = 2\<rparr>" by blast
  from colMap_identity[OF s, of 3] colMap_identity[OF s, of 1] colMap_identity[OF s, of 4] s c
  show ?thesis by (auto simp: upt_conv_Cons)
qed

section \<open>Properties of the sort\<close>

lemma key_less_irrefl: "\<not> key_less dsc k k"
  by (induction k) auto

lemma filter_insert_row_other:
  "row_key idxs r \<noteq> k \<Longrightarrow>
   filter (\<lambda>x. row_key idxs x = k) (insert_row idxs dsc r xs) = filter (\<lambda>x. row_key idxs x = k) xs"
  by (induction xs) auto

lemma filter_insert_row_same:
  "row_key idxs r = k \<Longrightarrow>
   filter (\<lambda>x. row_key idxs x = k) (insert_row idxs dsc r xs)
     = r # filter (\<lambda>x. row_key idxs x = k) xs"
  by (induction xs) (auto simp: key_less_irrefl)

lemma sort_rows_stable:
  "filter (\<lambda>x. row_key idxs x = k) (sort_rows idxs dsc rows) = filter (\<lambda>x. row_key idxs x = k) rows"
proof (induction rows)
  case Nil
  then show ?case by simp
next
  case (Cons r rows)
  then show ?case
    by (cases "row_key idxs r = k") (simp_all add: filter_insert_row_other filter_insert_row_same)
qed

lemma mset_insert_row: "mset (insert_row idxs dsc r xs) = add_mset r (mset xs)"
  by (induction xs) auto

lemma mset_sort_rows: "mset (sort_rows idxs dsc rows) = mset rows"
  by (induction rows) (auto simp: mset_insert_row)

text \<open>
  C2. \<open>Process\<close> on a new node with the block of rows (3, x), (1, y), (1, z) and the
  configured column \<open>a\<close> leaves the rows (1, y), (1, z), (3, x) in the builder when
  ascending and (3, x), (1, y), (1, z) when descending. In general the sort keeps the
  rows with equal sort-key values in their original relative order, and it permutes the
  rows.
\<close>

theorem Sort_example:
  "(\<exists>t'. Process (NewSortTransformation () Map.empty
                    \<lparr>SortProcedureSpec.Cols = [''a''], SortProcedureSpec.Desc = False\<rparr>) 0
             \<lparr>Key = [],
              Cols_blk = [\<lparr>Label = ''a'', Type = TInt\<rparr>, \<lparr>Label = ''b'', Type = TString\<rparr>],
              Rows_blk = [[VInt 3, VString ''x''], [VInt 1, VString ''y''], [VInt 1, VString ''z'']]\<rparr>
           = Some (None, t') \<and>
         map_option Rows_bb (cache t' []) =
           Some [[VInt 1, VString ''y''], [VInt 1, VString ''z''], [VInt 3, VString ''x'']]) \<and>
   (\<exists>t'. Process (NewSortTransformation () Map.empty
                    \<lparr>SortProcedureSpec.Cols = [''a''], SortProcedureSpec.Desc = True\<rparr>) 0
             \<lparr>Key = [],
              Cols_blk = [\<lparr>Label = ''a'', Type = TInt\<rparr>, \<lparr>Label = ''b'', Type = TString\<rparr>],
              Rows_blk = [[VInt 3, VString ''x''], [VInt 1, VString ''y''], [VInt 1, VString ''z'']]\<rparr>
           = Some (None, t') \<and>
         map_option Rows_bb (cache t' []) =
           Some [[VInt 3, VString ''x''], [VInt 1, VString ''y''], [VInt 1, VString ''z'']]) \<and>
   (\<forall>builder labels dsc k.
      filter (\<lambda>r. row_key (sort_idxs labels (Cols_bb builder)) r = k)
             (Rows_bb (Sort_bb builder labels dsc))
        = filter (\<lambda>r. row_key (sort_idxs labels (Cols_bb builder)) r = k) (Rows_bb builder) \<and>
      mset (Rows_bb (Sort_bb builder labels dsc)) = mset (Rows_bb builder))"
proof (intro conjI allI)
  show "\<exists>t'. Process (NewSortTransformation () Map.empty
                    \<lparr>SortProcedureSpec.Cols = [''a''], SortProcedureSpec.Desc = False\<rparr>) 0
             \<lparr>Key = [],
              Cols_blk = [\<lparr>Label = ''a'', Type = TInt\<rparr>, \<lparr>Label = ''b'', Type = TString\<rparr>],
              Rows_blk = [[VInt 3, VString ''x''], [VInt 1, VString ''y''], [VInt 1, VString ''z'']]\<rparr>
           = Some (None, t') \<and>
         map_option Rows_bb (cache t' []) =
           Some [[VInt 1, VString ''y''], [VInt 1, VString ''z''], [VInt 3, VString ''x'']]"
    by (simp add: key_eval node_eval)
  show "\<exists>t'. Process (NewSortTransformation () Map.empty
                    \<lparr>SortProcedureSpec.Cols = [''a''], SortProcedureSpec.Desc = True\<rparr>) 0
             \<lparr>Key = [],
              Cols_blk = [\<lparr>Label = ''a'', Type = TInt\<rparr>, \<lparr>Label = ''b'', Type = TString\<rparr>],
              Rows_blk = [[VInt 3, VString ''x''], [VInt 1, VString ''y''], [VInt 1, VString ''z'']]\<rparr>
           = Some (None, t') \<and>
         map_option Rows_bb (cache t' []) =
           Some [[VInt 3, VString ''x''], [VInt 1, VString ''y''], [VInt 1, VString ''z'']]"
    by (simp add: key_eval node_eval)
next
  fix builder labels dsc k
  show "filter (\<lambda>r. row_key (sort_idxs labels (Cols_bb builder)) r = k)
             (Rows_bb (Sort_bb builder labels dsc))
        = filter (\<lambda>r. row_key (sort_idxs labels (Cols_bb builder)) r = k) (Rows_bb builder)"
    by (simp add: Sort_bb_def sort_rows_stable)
  show "mset (Rows_bb (Sort_bb builder labels dsc)) = mset (Rows_bb builder)"
    by (simp add: Sort_bb_def mset_sort_rows)
qed

section \<open>Properties of Copy\<close>

lemma slice_read_length: "slice_valid h s \<Longrightarrow> length (slice_read h s) = slice_len s"
  by (cases s) (auto simp: slice_valid_def slice_read_def slice_len_def)

lemma Copy_eq:
  assumes "slice_valid h (SortProcedureSpec.Cols s)"
  shows "Copy h s =
           (h @ [slice_read h (SortProcedureSpec.Cols s)],
            \<lparr>SortProcedureSpec.Cols = Slice (length h) 0 (slice_len (SortProcedureSpec.Cols s)),
             SortProcedureSpec.Desc = SortProcedureSpec.Desc s\<rparr>)"
proof (cases "SortProcedureSpec.Cols s")
  case NilSlice
  then show ?thesis
    by (simp add: Copy_def make_slice_def copy_slice_def slice_len_def slice_read_def)
next
  case (Slice a off n)
  with assms have v: "a < length h" "off + n \<le> length (h ! a)"
    by (simp_all add: slice_valid_def)
  then have "length (take n (drop off (h ! a))) = n" by simp
  then show ?thesis
    using Slice v
    by (simp add: Copy_def make_slice_def copy_slice_def slice_len_def slice_read_def
          nth_append)
qed

lemma slice_read_append:
  "slice_valid h s \<Longrightarrow> slice_read (h @ hs) s = slice_read h s"
  by (cases s) (auto simp: slice_valid_def slice_read_def nth_append)

lemma write_copy:
  assumes "i < n" and "length xs = n"
  shows "slice_write (h @ [xs]) (Slice (length h) 0 n) i v = Some (h @ [xs[i := v]])"
  using assms by (simp add: slice_write_def list_update_append)

lemma write_source:
  assumes "slice_valid h s" and "i < slice_len s"
  shows "\<exists>h''. slice_write (h @ [xs]) s i v = Some h'' \<and>
           slice_read h'' s = (slice_read h s)[i := v] \<and>
           slice_read h'' (Slice (length h) 0 m) = slice_read (h @ [xs]) (Slice (length h) 0 m)"
proof (cases s)
  case NilSlice
  with assms show ?thesis by (simp add: slice_len_def)
next
  case (Slice a off n)
  with assms have v: "a < length h" "off + n \<le> length (h ! a)" "i < n"
    by (simp_all add: slice_valid_def slice_len_def)
  have "slice_write (h @ [xs]) s i v = Some (h[a := (h ! a)[off + i := v]] @ [xs])"
    using Slice v by (simp add: slice_write_def list_update_append nth_append)
  moreover have "slice_read (h[a := (h ! a)[off + i := v]] @ [xs]) s = (slice_read h s)[i := v]"
    using Slice v by (simp add: slice_read_def drop_update_swap take_update_swap nth_append)
  moreover have "slice_read (h[a := (h ! a)[off + i := v]] @ [xs]) (Slice (length h) 0 m)
                   = slice_read (h @ [xs]) (Slice (length h) 0 m)"
    by (simp add: slice_read_def nth_append)
  ultimately show ?thesis by auto
qed

text \<open>
  C7. For a specification whose column list is a valid slice of the store, \<open>Copy\<close>
  returns a specification with an equal column list and an equal direction flag, and
  leaves the original's column list as it was. A write to any element of the copy's
  column list leaves the original's column list unchanged, and a write to any element of
  the original's leaves the copy's unchanged.
\<close>

theorem Copy_independent:
  assumes "slice_valid h (SortProcedureSpec.Cols s)" and "Copy h s = (h', ns)"
  shows "slice_read h' (SortProcedureSpec.Cols ns) = slice_read h (SortProcedureSpec.Cols s) \<and>
         SortProcedureSpec.Desc ns = SortProcedureSpec.Desc s \<and>
         slice_read h' (SortProcedureSpec.Cols s) = slice_read h (SortProcedureSpec.Cols s) \<and>
         (\<forall>i v. i < length (slice_read h (SortProcedureSpec.Cols s)) \<longrightarrow>
            (\<exists>h''. slice_write h' (SortProcedureSpec.Cols ns) i v = Some h'' \<and>
                    slice_read h'' (SortProcedureSpec.Cols ns)
                      = (slice_read h' (SortProcedureSpec.Cols ns))[i := v] \<and>
                    slice_read h'' (SortProcedureSpec.Cols s)
                      = slice_read h' (SortProcedureSpec.Cols s))) \<and>
         (\<forall>i v. i < length (slice_read h (SortProcedureSpec.Cols s)) \<longrightarrow>
            (\<exists>h''. slice_write h' (SortProcedureSpec.Cols s) i v = Some h'' \<and>
                    slice_read h'' (SortProcedureSpec.Cols s)
                      = (slice_read h' (SortProcedureSpec.Cols s))[i := v] \<and>
                    slice_read h'' (SortProcedureSpec.Cols ns)
                      = slice_read h' (SortProcedureSpec.Cols ns)))"
proof -
  let ?src = "SortProcedureSpec.Cols s"
  let ?xs = "slice_read h ?src"
  let ?n = "slice_len ?src"
  from assms Copy_eq[OF assms(1)] have h': "h' = h @ [?xs]"
    and ns: "SortProcedureSpec.Cols ns = Slice (length h) 0 ?n"
    and dsc: "SortProcedureSpec.Desc ns = SortProcedureSpec.Desc s"
    by auto
  have len: "length ?xs = ?n" by (rule slice_read_length[OF assms(1)])
  have rc: "\<And>ys. length ys = ?n \<Longrightarrow> slice_read (h @ [ys]) (Slice (length h) 0 ?n) = ys"
    by (simp add: slice_read_def)
  have 1: "slice_read h' (SortProcedureSpec.Cols ns) = ?xs"
    unfolding h' ns by (rule rc[OF len])
  have 3: "slice_read h' ?src = ?xs"
    unfolding h' by (rule slice_read_append[OF assms(1)])
  have 4: "\<exists>h''. slice_write h' (SortProcedureSpec.Cols ns) i v = Some h'' \<and>
                    slice_read h'' (SortProcedureSpec.Cols ns)
                      = (slice_read h' (SortProcedureSpec.Cols ns))[i := v] \<and>
                    slice_read h'' ?src = slice_read h' ?src"
    if i: "i < length ?xs" for i v
  proof -
    from i len have "i < ?n" by simp
    from write_copy[OF this len, of h v]
    have w: "slice_write h' (SortProcedureSpec.Cols ns) i v = Some (h @ [?xs[i := v]])"
      unfolding h' ns .
    have a: "slice_read (h @ [?xs[i := v]]) (SortProcedureSpec.Cols ns) = ?xs[i := v]"
      unfolding ns by (rule rc) (simp add: len)
    have b: "slice_read (h @ [?xs[i := v]]) ?src = ?xs"
      by (rule slice_read_append[OF assms(1)])
    from w a b show ?thesis unfolding 1 3 by simp
  qed
  have 5: "\<exists>h''. slice_write h' ?src i v = Some h'' \<and>
                    slice_read h'' ?src = (slice_read h' ?src)[i := v] \<and>
                    slice_read h'' (SortProcedureSpec.Cols ns)
                      = slice_read h' (SortProcedureSpec.Cols ns)"
    if i: "i < length ?xs" for i v
  proof -
    from i len have "i < ?n" by simp
    from write_source[OF assms(1) this, of ?xs v ?n] obtain h'' where
      w: "slice_write h' ?src i v = Some h''"
      and a: "slice_read h'' ?src = ?xs[i := v]"
      and b: "slice_read h'' (SortProcedureSpec.Cols ns) = slice_read h' (SortProcedureSpec.Cols ns)"
      unfolding h' ns by blast
    from w a b show ?thesis unfolding 1 3 by simp
  qed
  from 1 dsc 3 4 5 show ?thesis by blast
qed

theorem Copy_independent_witness:
  "Copy [[''a'', ''b'', ''c'']] \<lparr>SortProcedureSpec.Cols = Slice 0 1 2, SortProcedureSpec.Desc = True\<rparr>
     = ([[''a'', ''b'', ''c''], [''b'', ''c'']],
        \<lparr>SortProcedureSpec.Cols = Slice 1 0 2, SortProcedureSpec.Desc = True\<rparr>) \<and>
   slice_write [[''a'', ''b'', ''c''], [''b'', ''c'']] (Slice 1 0 2) 0 ''z''
     = Some [[''a'', ''b'', ''c''], [''z'', ''c'']] \<and>
   slice_read [[''a'', ''b'', ''c''], [''z'', ''c'']] (Slice 0 1 2) = [''b'', ''c''] \<and>
   slice_write [[''a'', ''b'', ''c''], [''b'', ''c'']] (Slice 0 1 2) 1 ''z''
     = Some [[''a'', ''b'', ''z''], [''b'', ''c'']] \<and>
   slice_read [[''a'', ''b'', ''z''], [''b'', ''c'']] (Slice 1 0 2) = [''b'', ''c'']"
  using Copy_independent[of "[[''a'', ''b'', ''c'']]"
      "\<lparr>SortProcedureSpec.Cols = Slice 0 1 2, SortProcedureSpec.Desc = True\<rparr>"
      "[[''a'', ''b'', ''c''], [''b'', ''c'']]"
      "\<lparr>SortProcedureSpec.Cols = Slice 1 0 2, SortProcedureSpec.Desc = True\<rparr>"]
  by (simp add: Copy_def make_slice_def copy_slice_def slice_len_def slice_read_def
        slice_write_def slice_valid_def)

end
